theory Spec2Isabelle
  imports Complex_Main "HOL-Library.Multiset"
begin

section \<open>Strings\<close>

text \<open>
  JavaScript strings are modelled as \<open>string\<close>: lists of 8-bit characters, a character
  outside ASCII taking several of them (UTF-8). A string is ASCII when every character of
  it is below 128.
\<close>

definition ascii_char :: "char \<Rightarrow> bool" where
  "ascii_char c \<longleftrightarrow> (of_char c :: nat) < 128"

definition ascii :: "string \<Rightarrow> bool" where
  "ascii s \<longleftrightarrow> list_all ascii_char s"

text \<open>
  \<open>String.prototype.toUpperCase\<close> is a builtin of the engine. On an ASCII character
  it maps the letters a-z to A-Z and leaves every other character as it is
  (\<open>toUpperCase_char\<close>, applied to ASCII strings only). On a string that is not ASCII it is
  the Unicode case conversion of the engine, which may change the length of the string and
  may give an ASCII string; it is not modelled but taken as the parameter \<open>uc\<close> of every
  function that upper-cases client input.
\<close>

definition toUpperCase_char :: "char \<Rightarrow> char" where
  "toUpperCase_char c =
     (let n = (of_char c :: nat) in if 97 \<le> n \<and> n \<le> 122 then char_of (n - 32) else c)"

definition toUpperCase :: "(string \<Rightarrow> string) \<Rightarrow> string \<Rightarrow> string" where
  "toUpperCase uc s = (if ascii s then map toUpperCase_char s else uc s)"

section \<open>Entity store\<close>

text \<open>
  A token object of \<open>src/server/src/index.js\<close> (the \<open>tokensUpdated\<close> version of the
  server). A JavaScript number is modelled by the real number it stands for (not-a-number
  and the infinities are not modelled); the arithmetic of the engine on these numbers is
  not the arithmetic of the reals, see \<open>js_arith\<close>.
\<close>

record token =
  tokenResourceId :: string
  symbol :: string
  name :: string
  price :: real
  change24h :: real

text \<open>
  The object \<open>tokens\<close> maps a symbol to its token object. It is an association list in
  insertion order, the order of \<open>Object.keys\<close> and \<open>Object.values\<close>.
\<close>

type_synonym store = "(string \<times> token) list"

type_synonym batch = "token list"

definition tokens_ETH :: token where
  "tokens_ETH = \<lparr>tokenResourceId = ''token:ethereum:native'', symbol = ''ETH'',
     name = ''Ethereum'', price = 2250.50, change24h = 2.5\<rparr>"

definition tokens_BTC :: token where
  "tokens_BTC = \<lparr>tokenResourceId = ''token:bitcoin:native'', symbol = ''BTC'',
     name = ''Bitcoin'', price = 43500.00, change24h = 1.8\<rparr>"

definition tokens_SOL :: token where
  "tokens_SOL = \<lparr>tokenResourceId = ''token:solana:native'', symbol = ''SOL'',
     name = ''Solana'', price = 98.75, change24h = -0.5\<rparr>"

definition tokens :: store where
  "tokens = [(''ETH'', tokens_ETH), (''BTC'', tokens_BTC), (''SOL'', tokens_SOL)]"

text \<open>
  The store invariant: keys are distinct (they are the property names of one object),
  identifiers are distinct, and every token is stored under its own symbol.
\<close>

definition wf_store :: "store \<Rightarrow> bool" where
  "wf_store st \<longleftrightarrow>
     distinct (map fst st) \<and>
     distinct (map (tokenResourceId \<circ> snd) st) \<and>
     (\<forall>(k, t) \<in> set st. symbol t = k)"

section \<open>Query resolvers\<close>

text \<open>
  \<open>resolvers.Query.token\<close>: \<open>tokens[symbol.toUpperCase()] || null\<close>. No property of
  \<open>Object.prototype\<close> has an upper-case name, so the lookup only finds own keys.
\<close>

definition Query_token :: "(string \<Rightarrow> string) \<Rightarrow> store \<Rightarrow> string \<Rightarrow> token option" where
  "Query_token uc st s = (let upperSymbol = toUpperCase uc s in map_of st upperSymbol)"

definition Query_tokens :: "store \<Rightarrow> token list" where
  "Query_tokens st = map snd st"

section \<open>Topic and subscription filter\<close>

text \<open>
  \<open>PubSub\<close> is a library class (graphql-subscriptions). It is modelled by its contract:
  an iterator made by \<open>pubsub.asyncIterator\<close> is a raw feed that receives every payload
  published after it was made, in publish order, until it is returned. \<open>pushQueue\<close> holds
  the payloads no call of \<open>baseIterator.next()\<close> has taken yet, and \<open>pullQueue\<close> is the
  number of calls of \<open>baseIterator.next()\<close> that found the feed empty and are waiting: their
  promises are pending. A payload published while a call waits is handed to the call that
  has waited longest; in the model it enters \<open>pushQueue\<close> and that call takes it from
  there when it resumes (\<open>tokensUpdated_resume\<close>), before anything else happens.
  The topic state is the list of the iterators made so far; a handle is a position in it.
\<close>

record base_iterator =
  pushQueue :: "batch list"
  pullQueue :: nat
  running :: bool

type_synonym pubsub = "base_iterator list"

definition pubsub_publish :: "batch \<Rightarrow> pubsub \<Rightarrow> pubsub" where
  "pubsub_publish b ps =
     map (\<lambda>it. if running it then it\<lparr>pushQueue := pushQueue it @ [b]\<rparr> else it) ps"

definition pubsub_asyncIterator :: "pubsub \<Rightarrow> nat \<times> pubsub" where
  "pubsub_asyncIterator ps =
     (length ps, ps @ [\<lparr>pushQueue = [], pullQueue = 0, running = True\<rparr>])"

text \<open>
  The object returned by \<open>tokensUpdated.subscribe\<close>: the closure holds \<open>upperSymbols\<close>
  and \<open>baseIterator\<close>.
\<close>

record subscription =
  upperSymbols :: "string list"
  baseIterator :: nat

text \<open>
  \<open>InvalidSubscriptionRequest\<close> is the error the specification names for subscribe;
  the source has no branch that produces it.
\<close>

datatype subscribe_error = InvalidSubscriptionRequest

definition tokensUpdated_subscribe ::
  "(string \<Rightarrow> string) \<Rightarrow> string list \<Rightarrow> pubsub \<Rightarrow> (subscribe_error + subscription) \<times> pubsub" where
  "tokensUpdated_subscribe uc symbols ps =
     (let upper = map (toUpperCase uc) symbols;
          (h, ps') = pubsub_asyncIterator ps
      in (Inr \<lparr>upperSymbols = upper, baseIterator = h\<rparr>, ps'))"

text \<open>
  What a call of \<open>next()\<close> has given when it stops running: a value, \<open>done\<close>, or
  nothing yet (\<open>IterPending\<close>): the call waits in \<open>await baseIterator.next()\<close> for the
  next raw batch, its promise is pending, and it goes on when a batch is published.
\<close>

datatype iterator_result = IterValue batch | IterDone | IterPending

text \<open>
  The \<open>while (true)\<close> loop of \<open>next()\<close> over the raw batches the base iterator holds:
  every iteration takes one raw batch, so the loop is a recursion on the queue. When the
  queue is used up the loop waits in \<open>await baseIterator.next()\<close>.
\<close>

fun next_loop :: "string list \<Rightarrow> batch list \<Rightarrow> iterator_result \<times> batch list" where
  "next_loop us [] = (IterPending, [])"
| "next_loop us (allUpdatedTokens # q) =
     (let filteredTokens = filter (\<lambda>t. symbol t \<in> set us) allUpdatedTokens
      in if length filteredTokens > 0 then (IterValue filteredTokens, q)
         else next_loop us q)"

definition tokensUpdated_next :: "subscription \<Rightarrow> pubsub \<Rightarrow> iterator_result \<times> pubsub" where
  "tokensUpdated_next sub ps =
     (let h = baseIterator sub in
      if h < length ps then
        (let it = ps ! h in
         if running it then
           (case next_loop (upperSymbols sub) (pushQueue it) of
              (r, q) \<Rightarrow>
                (r, ps[h := it\<lparr>pushQueue := q,
                         pullQueue := (if r = IterPending then Suc (pullQueue it)
                                       else pullQueue it)\<rparr>]))
         else (IterDone, ps))
      else (IterDone, ps))"

text \<open>
  The waiting calls of \<open>next()\<close> go on when the feed holds raw batches again: the call
  that has waited longest continues its loop on the feed and either returns a value or uses
  the feed up and waits again; then the next waiting call does, as long as one waits and the
  feed is not used up. The result is the values the resumed calls return, in the order in
  which they return them, the number of calls still waiting, and what is left of the feed.
\<close>

fun resume_loop :: "string list \<Rightarrow> nat \<Rightarrow> batch list \<Rightarrow> batch list \<times> nat \<times> batch list" where
  "resume_loop us 0 q = ([], 0, q)"
| "resume_loop us (Suc n) q =
     (case next_loop us q of
        (IterValue y, q') \<Rightarrow>
          (case resume_loop us n q' of (ys, w, q'') \<Rightarrow> (y # ys, w, q''))
      | (IterDone, q') \<Rightarrow> ([], Suc n, q')
      | (IterPending, q') \<Rightarrow> ([], Suc n, q'))"

definition tokensUpdated_resume :: "subscription \<Rightarrow> pubsub \<Rightarrow> batch list \<times> pubsub" where
  "tokensUpdated_resume sub ps =
     (let h = baseIterator sub in
      if h < length ps then
        (let it = ps ! h in
         if running it then
           (case resume_loop (upperSymbols sub) (pullQueue it) (pushQueue it) of
              (ys, w, q) \<Rightarrow> (ys, ps[h := it\<lparr>pushQueue := q, pullQueue := w\<rparr>]))
         else ([], ps))
      else ([], ps))"

text \<open>
  \<open>return()\<close> returns the base iterator: its queue is emptied, the waiting calls are
  resolved with \<open>done\<close>, and it receives nothing any more.
\<close>

definition tokensUpdated_return :: "subscription \<Rightarrow> pubsub \<Rightarrow> pubsub" where
  "tokensUpdated_return sub ps =
     (let h = baseIterator sub in
      if h < length ps then ps[h := \<lparr>pushQueue = [], pullQueue = 0, running = False\<rparr>]
      else ps)"

text \<open>
  What one consumer observes: the topic receives publishes, and the consumer calls
  \<open>next()\<close> at any moments in between. The values its calls return are collected in the
  order in which the calls return them: a call that finds a matching batch in the feed
  returns at once, a call that does not waits and returns when a later publish brings a
  matching batch. Right after a publish the waiting calls of this consumer resume.
\<close>

datatype event = Publish batch | Next

fun published :: "event list \<Rightarrow> batch list" where
  "published [] = []"
| "published (Publish b # evs) = b # published evs"
| "published (Next # evs) = published evs"

fun consume :: "subscription \<Rightarrow> event list \<Rightarrow> pubsub \<Rightarrow> batch list \<times> pubsub" where
  "consume sub [] ps = ([], ps)"
| "consume sub (Publish b # evs) ps =
     (case tokensUpdated_resume sub (pubsub_publish b ps) of
        (ys1, ps') \<Rightarrow> (case consume sub evs ps' of (ys, ps'') \<Rightarrow> (ys1 @ ys, ps'')))"
| "consume sub (Next # evs) ps =
     (case tokensUpdated_next sub ps of
        (IterValue y, ps') \<Rightarrow> (case consume sub evs ps' of (ys, ps'') \<Rightarrow> (y # ys, ps''))
      | (IterDone, ps') \<Rightarrow> consume sub evs ps'
      | (IterPending, ps') \<Rightarrow> consume sub evs ps')"

section \<open>Mutator\<close>

text \<open>
  The arithmetic of the engine is IEEE binary64: the result of \<open>+\<close>, \<open>-\<close>, \<open>*\<close> and
  \<open>/\<close> is the exact result rounded to a double, and a decimal literal stands for the
  double nearest to it. This rounding is not modelled. The four operations are taken as a
  parameter: \<open>js_mul ar x y\<close> is what the engine computes for \<open>x * y\<close>, the operands read
  as the doubles they stand for.
\<close>

record js_arith =
  js_add :: "real \<Rightarrow> real \<Rightarrow> real"
  js_sub :: "real \<Rightarrow> real \<Rightarrow> real"
  js_mul :: "real \<Rightarrow> real \<Rightarrow> real"
  js_div :: "real \<Rightarrow> real \<Rightarrow> real"

text \<open>
  \<open>Math.round\<close> gives the integer nearest to its argument, a half towards plus infinity.
  It is exact.
\<close>

definition Math_round :: "real \<Rightarrow> real" where
  "Math_round x = of_int \<lfloor>x + 1 / 2\<rfloor>"

text \<open>
  The body of the \<open>forEach\<close> callback on one token object; \<open>r1\<close> and \<open>r2\<close> are the two
  values \<open>Math.random()\<close> returns there.
\<close>

definition update_token :: "js_arith \<Rightarrow> real \<Rightarrow> real \<Rightarrow> token \<Rightarrow> token" where
  "update_token ar r1 r2 t =
     (let fluctuation = js_mul ar (js_sub ar r1 0.5) 0.04;
          p1 = js_mul ar (price t) (js_add ar 1 fluctuation);
          p2 = js_div ar (Math_round (js_mul ar p1 100)) 100;
          c1 = js_add ar (change24h t) (js_mul ar (js_sub ar r2 0.5) 0.5);
          c2 = js_div ar (Math_round (js_mul ar c1 100)) 100
      in t\<lparr>price := p2, change24h := c2\<rparr>)"

text \<open>The token object stored under a key is mutated in place.\<close>

definition assign_token :: "string \<Rightarrow> token \<Rightarrow> store \<Rightarrow> store" where
  "assign_token k v st = map (\<lambda>(k', v'). if k' = k then (k', v) else (k', v')) st"

text \<open>
  The random outcomes of one tick: the value compared with 0.5 to choose
  \<open>numToUpdate\<close>, the array the randomly compared \<open>sort\<close> leaves (a rearrangement of
  \<open>allSymbols\<close>, see \<open>shuffle_ok\<close>), and the two draws of the n-th \<open>forEach\<close> call.
\<close>

record tick_rand =
  rnd_count :: real
  shuffled :: "string list"
  rnd_update :: "nat \<Rightarrow> real \<times> real"

definition shuffle_ok :: "store \<Rightarrow> tick_rand \<Rightarrow> bool" where
  "shuffle_ok st r \<longleftrightarrow> mset (shuffled r) = mset (map fst st)"

text \<open>
  Reading a field of \<open>tokens[symbol]\<close> when the key is absent throws a \<open>TypeError\<close>.
\<close>

datatype js_error = TypeError

fun forEach_update ::
  "js_arith \<Rightarrow> (nat \<Rightarrow> real \<times> real) \<Rightarrow> nat \<Rightarrow> string list \<Rightarrow> store \<Rightarrow> batch \<Rightarrow>
     js_error + (store \<times> batch)" where
  "forEach_update ar draws i [] st updatedTokens = Inr (st, updatedTokens)"
| "forEach_update ar draws i (k # rest) st updatedTokens =
     (case map_of st k of
        None \<Rightarrow> Inl TypeError
      | Some t \<Rightarrow>
          (let t' = update_token ar (fst (draws i)) (snd (draws i)) t
           in forEach_update ar draws (Suc i) rest (assign_token k t' st)
                (updatedTokens @ [t'])))"

definition numToUpdate :: "tick_rand \<Rightarrow> nat" where
  "numToUpdate r = (if rnd_count r < 0.5 then 1 else 2)"

definition symbolsToUpdate :: "tick_rand \<Rightarrow> string list" where
  "symbolsToUpdate r = take (numToUpdate r) (shuffled r)"

text \<open>
  One run of the interval callback of \<open>simulatePriceUpdates\<close>: the new store and the
  array passed to \<open>pubsub.publish\<close>.
\<close>

definition simulatePriceUpdates_tick ::
  "js_arith \<Rightarrow> tick_rand \<Rightarrow> store \<Rightarrow> js_error + (store \<times> batch)" where
  "simulatePriceUpdates_tick ar r st =
     forEach_update ar (rnd_update r) 0 (symbolsToUpdate r) st []"

text \<open>The ticks of the interval timer, one after the other; an uncaught error ends them.\<close>

fun run_ticks :: "js_arith \<Rightarrow> tick_rand list \<Rightarrow> store \<Rightarrow> js_error + (store \<times> batch list)" where
  "run_ticks ar [] st = Inr (st, [])"
| "run_ticks ar (r # rs) st =
     (case simulatePriceUpdates_tick ar r st of
        Inl e \<Rightarrow> Inl e
      | Inr (st1, b) \<Rightarrow>
          (case run_ticks ar rs st1 of
             Inl e \<Rightarrow> Inl e
           | Inr (st2, bs) \<Rightarrow> Inr (st2, b # bs)))"


section \<open>Notions used to state the properties\<close>

text \<open>
  The restriction of a raw batch to a list of symbols, and the stream a subscriber is
  expected to see: the restrictions of the raw batches, the empty ones left out.
\<close>

definition restrict_batch :: "string list \<Rightarrow> batch \<Rightarrow> batch" where
  "restrict_batch us b = filter (\<lambda>t. symbol t \<in> set us) b"

definition filter_map_stream :: "string list \<Rightarrow> batch list \<Rightarrow> batch list" where
  "filter_map_stream us bs = filter (\<lambda>y. y \<noteq> []) (map (restrict_batch us) bs)"

text \<open>
  What one run of the loop of \<open>next()\<close> achieves on the raw batches \<open>c\<close> it has
  taken: it returns the one non-empty restriction among them, or it has taken them all and
  none of them had a non-empty restriction.
\<close>

definition next_loop_post :: "string list \<Rightarrow> batch list \<Rightarrow> iterator_result \<Rightarrow> batch list \<Rightarrow> bool" where
  "next_loop_post us c r q' \<longleftrightarrow>
     (\<exists>y. r = IterValue y \<and> filter_map_stream us c = [y]) \<or>
     (r = IterPending \<and> filter_map_stream us c = [] \<and> q' = [])"

text \<open>
  Two token values describe the same logical entity: identifier, symbol and name agree.
  A later store has the same keys as an earlier one, and under every key a token with the
  same identity.
\<close>

definition same_identity :: "token \<Rightarrow> token \<Rightarrow> bool" where
  "same_identity t t' \<longleftrightarrow>
     tokenResourceId t' = tokenResourceId t \<and> symbol t' = symbol t \<and> name t' = name t"

definition store_identity :: "store \<Rightarrow> store \<Rightarrow> bool" where
  "store_identity st st' \<longleftrightarrow>
     map fst st' = map fst st \<and>
     (\<forall>k t. map_of st k = Some t \<longrightarrow> (\<exists>t'. map_of st' k = Some t' \<and> same_identity t t'))"

section \<open>Example inputs\<close>

text \<open>
  The parameters in the examples. Every string the examples upper-case is ASCII, so the
  conversion of other strings is never applied there: it is the identity. The arithmetic
  of the examples is exact arithmetic.
\<close>

definition uc_example :: "string \<Rightarrow> string" where
  "uc_example s = s"

definition ar_example :: js_arith where
  "ar_example = \<lparr>js_add = (+), js_sub = (-), js_mul = (\<lambda>x y. x * y), js_div = (/)\<rparr>"

text \<open>
  One tick in which the random choices are: two tokens to update, the shuffled order
  SOL, ETH, BTC, and the draws 0.75 and 0.25 for every updated token. The tokens, the store
  and the published batch after that tick, a subscription to ETH and SOL, and a consumer
  that calls \<open>next()\<close> before and after the batch is published.
\<close>

definition rand_example :: tick_rand where
  "rand_example = \<lparr>rnd_count = 0.7, shuffled = [''SOL'', ''ETH'', ''BTC''],
     rnd_update = (\<lambda>i. (0.75, 0.25))\<rparr>"

definition example_SOL :: token where
  "example_SOL = \<lparr>tokenResourceId = ''token:solana:native'', symbol = ''SOL'',
     name = ''Solana'', price = 99.74, change24h = -0.62\<rparr>"

definition example_ETH :: token where
  "example_ETH = \<lparr>tokenResourceId = ''token:ethereum:native'', symbol = ''ETH'',
     name = ''Ethereum'', price = 2273.01, change24h = 2.38\<rparr>"

definition example_store :: store where
  "example_store = [(''ETH'', example_ETH), (''BTC'', tokens_BTC), (''SOL'', example_SOL)]"

definition example_batch :: batch where
  "example_batch = [example_SOL, example_ETH]"

definition example_sub :: subscription where
  "example_sub = \<lparr>upperSymbols = [''ETH'', ''SOL''], baseIterator = 0\<rparr>"

definition example_events :: "event list" where
  "example_events = [Next, Publish example_batch, Next]"

definition example_publishes :: "event list" where
  "example_publishes =
     [Next, Publish [tokens_BTC], Publish [tokens_SOL, tokens_BTC], Publish [tokens_ETH], Next]"

section \<open>Lemmas\<close>

subsection \<open>Strings\<close>

lemma toUpperCase_char_idem: "toUpperCase_char (toUpperCase_char c) = toUpperCase_char c"
proof -
  let ?n = "of_char c :: nat"
  show ?thesis
  proof (cases "97 \<le> ?n \<and> ?n \<le> 122")
    case True
    then have "?n - 32 < 256" by arith
    then have "(of_char (char_of (?n - 32) :: char) :: nat) = ?n - 32"
      by (simp add: of_char_of)
    moreover have "\<not> (97 \<le> ?n - 32 \<and> ?n - 32 \<le> 122)" using True by arith
    ultimately have "toUpperCase_char (char_of (?n - 32)) = char_of (?n - 32)"
      unfolding toUpperCase_char_def Let_def by presburger
    then show ?thesis using True by (simp add: toUpperCase_char_def [of c] Let_def)
  next
    case False
    then have "toUpperCase_char c = c" unfolding toUpperCase_char_def Let_def by presburger
    then show ?thesis by simp
  qed
qed

lemma ascii_toUpperCase_char: "ascii_char c \<Longrightarrow> ascii_char (toUpperCase_char c)"
proof -
  let ?n = "of_char c :: nat"
  assume a: "ascii_char c"
  show ?thesis
  proof (cases "97 \<le> ?n \<and> ?n \<le> 122")
    case True
    then have "?n - 32 < 256" by arith
    then have "(of_char (char_of (?n - 32) :: char) :: nat) = ?n - 32"
      by (simp add: of_char_of)
    moreover have "?n - 32 < 128" using True by arith
    moreover have "toUpperCase_char c = char_of (?n - 32)"
      using True unfolding toUpperCase_char_def Let_def by presburger
    ultimately show ?thesis by (simp add: ascii_char_def)
  next
    case False
    then have "toUpperCase_char c = c" unfolding toUpperCase_char_def Let_def by presburger
    then show ?thesis using a by simp
  qed
qed

lemma ascii_map_toUpperCase_char: "ascii s \<Longrightarrow> ascii (map toUpperCase_char s)"
  by (induction s) (simp_all add: ascii_def ascii_toUpperCase_char)

lemma toUpperCase_ascii: "ascii s \<Longrightarrow> toUpperCase uc s = map toUpperCase_char s"
  by (simp add: toUpperCase_def)

lemma toUpperCase_idem_ascii:
  "ascii s \<Longrightarrow> toUpperCase uc (toUpperCase uc s) = toUpperCase uc s"
  by (simp add: toUpperCase_ascii ascii_map_toUpperCase_char toUpperCase_char_idem)

lemma ascii_examples:
  "ascii ''eth''" "ascii ''sol''" "ascii ''btc''" "ascii ''BTC''" "ascii ''doge''"
  "ascii ''token:bitcoin:native''"
  by code_simp+

lemma map_toUpperCase_char_examples:
  "map toUpperCase_char ''eth'' = ''ETH''" "map toUpperCase_char ''sol'' = ''SOL''"
  "map toUpperCase_char ''btc'' = ''BTC''" "map toUpperCase_char ''BTC'' = ''BTC''"
  "map toUpperCase_char ''doge'' = ''DOGE''"
  "map toUpperCase_char ''token:bitcoin:native'' = ''TOKEN:BITCOIN:NATIVE''"
  by code_simp+

lemma toUpperCase_examples:
  "toUpperCase uc ''eth'' = ''ETH''" "toUpperCase uc ''sol'' = ''SOL''"
  "toUpperCase uc ''btc'' = ''BTC''" "toUpperCase uc ''BTC'' = ''BTC''"
  "toUpperCase uc ''doge'' = ''DOGE''"
  "toUpperCase uc ''token:bitcoin:native'' = ''TOKEN:BITCOIN:NATIVE''"
  by (simp_all only: toUpperCase_ascii ascii_examples map_toUpperCase_char_examples)

subsection \<open>The subscription filter\<close>

lemma filter_map_stream_append:
  "filter_map_stream us (xs @ ys) = filter_map_stream us xs @ filter_map_stream us ys"
  by (simp add: filter_map_stream_def)

lemma filter_map_stream_member:
  "y \<in> set (filter_map_stream us c) \<Longrightarrow> e \<in> set y \<Longrightarrow>
   \<exists>b \<in> set c. e \<in> set b \<and> symbol e \<in> set us"
  by (auto simp: filter_map_stream_def restrict_batch_def)

lemma filter_map_stream_nonempty: "y \<in> set (filter_map_stream us c) \<Longrightarrow> y \<noteq> []"
  by (simp add: filter_map_stream_def)

lemma filter_map_stream_indices:
  "\<exists>is. sorted_wrt (<) is \<and> (\<forall>i \<in> set is. i < length c) \<and>
     filter_map_stream us c = map (\<lambda>i. restrict_batch us (c ! i)) is"
proof -
  let ?is = "filter (\<lambda>i. restrict_batch us (c ! i) \<noteq> []) [0..<length c]"
  have "filter_map_stream us c =
      filter (\<lambda>y. y \<noteq> []) (map (restrict_batch us) (map (\<lambda>i. c ! i) [0..<length c]))"
    unfolding filter_map_stream_def by (simp only: map_nth)
  also have "\<dots> = map (\<lambda>i. restrict_batch us (c ! i)) ?is"
    by (simp add: filter_map comp_def)
  finally have "filter_map_stream us c = map (\<lambda>i. restrict_batch us (c ! i)) ?is" .
  moreover have "sorted_wrt (<) ?is" by (simp add: sorted_wrt_filter)
  moreover have "\<forall>i \<in> set ?is. i < length c" by simp
  ultimately show ?thesis by blast
qed

lemma next_loop_split:
  "\<exists>c. q = c @ snd (next_loop us q) \<and> next_loop_post us c (fst (next_loop us q)) (snd (next_loop us q))"
proof (induction q)
  case Nil
  then show ?case by (simp add: filter_map_stream_def next_loop_post_def)
next
  case (Cons b q)
  show ?case
  proof (cases "restrict_batch us b = []")
    case True
    from Cons obtain c where c: "q = c @ snd (next_loop us q)"
      "next_loop_post us c (fst (next_loop us q)) (snd (next_loop us q))" by blast
    have nl: "next_loop us (b # q) = next_loop us q"
      using True by (simp add: restrict_batch_def)
    have fm: "filter_map_stream us (b # c) = filter_map_stream us c"
      using True by (simp add: filter_map_stream_def)
    have "b # q = (b # c) @ snd (next_loop us (b # q))"
      using c(1) by (simp add: nl del: next_loop.simps)
    moreover have "next_loop_post us (b # c) (fst (next_loop us (b # q))) (snd (next_loop us (b # q)))"
      using c(2) by (simp add: nl fm next_loop_post_def del: next_loop.simps)
    ultimately show ?thesis by blast
  next
    case False
    then have nl: "next_loop us (b # q) = (IterValue (restrict_batch us b), q)"
      by (simp add: restrict_batch_def)
    have "b # q = [b] @ snd (next_loop us (b # q))"
      by (simp add: nl del: next_loop.simps)
    moreover have "next_loop_post us [b] (fst (next_loop us (b # q))) (snd (next_loop us (b # q)))"
      using False by (simp add: nl next_loop_post_def filter_map_stream_def del: next_loop.simps)
    ultimately show ?thesis by blast
  qed
qed

lemma next_loop_cases:
  "(\<exists>y q' c. next_loop us q = (IterValue y, q') \<and> q = c @ q' \<and> filter_map_stream us c = [y]) \<or>
   (next_loop us q = (IterPending, []) \<and> filter_map_stream us q = [])"
proof -
  obtain c where c: "q = c @ snd (next_loop us q)"
     "next_loop_post us c (fst (next_loop us q)) (snd (next_loop us q))"
    using next_loop_split by blast
  from c(2) show ?thesis unfolding next_loop_post_def
  proof (elim disjE exE conjE)
    fix y assume "fst (next_loop us q) = IterValue y" "filter_map_stream us c = [y]"
    then show ?thesis using c(1) by (metis prod.collapse)
  next
    assume a: "fst (next_loop us q) = IterPending" "filter_map_stream us c = []" "snd (next_loop us q) = []"
    then have "q = c" using c(1) by simp
    then show ?thesis using a by (metis prod.collapse)
  qed
qed

lemma length_pubsub_publish: "length (pubsub_publish b ps) = length ps"
  by (simp add: pubsub_publish_def)

lemma nth_pubsub_publish:
  "h < length ps \<Longrightarrow> running (ps ! h) \<Longrightarrow>
   pubsub_publish b ps ! h = (ps ! h)\<lparr>pushQueue := pushQueue (ps ! h) @ [b]\<rparr>"
  by (simp add: pubsub_publish_def)

lemma tokensUpdated_next_running:
  "baseIterator sub < length ps \<Longrightarrow> running (ps ! baseIterator sub) \<Longrightarrow>
   tokensUpdated_next sub ps =
     (fst (next_loop (upperSymbols sub) (pushQueue (ps ! baseIterator sub))),
      ps[baseIterator sub := (ps ! baseIterator sub)
           \<lparr>pushQueue := snd (next_loop (upperSymbols sub) (pushQueue (ps ! baseIterator sub))),
            pullQueue :=
              (if fst (next_loop (upperSymbols sub) (pushQueue (ps ! baseIterator sub))) = IterPending
               then Suc (pullQueue (ps ! baseIterator sub))
               else pullQueue (ps ! baseIterator sub))\<rparr>])"
  by (simp add: tokensUpdated_next_def Let_def split: prod.splits)

lemma resume_loop_split:
  "resume_loop us n q = (ys, w, q') \<Longrightarrow>
   (\<exists>c. q = c @ q' \<and> ys = filter_map_stream us c) \<and> (w = 0 \<or> q' = [])"
proof (induction n arbitrary: q ys w q')
  case 0
  then show ?case by (simp add: filter_map_stream_def)
next
  case (Suc n)
  from next_loop_cases [of us q] show ?case
  proof (elim disjE exE conjE)
    fix y q1 c
    assume a: "next_loop us q = (IterValue y, q1)" "q = c @ q1" "filter_map_stream us c = [y]"
    obtain ys1 where r: "resume_loop us n q1 = (ys1, w, q')" "ys = y # ys1"
      using Suc.prems a(1) by (auto split: prod.splits)
    from Suc.IH [OF r(1)] obtain c1 where c1: "q1 = c1 @ q'" "ys1 = filter_map_stream us c1"
      and w: "w = 0 \<or> q' = []" by blast
    have "q = (c @ c1) @ q'" using a(2) c1(1) by simp
    moreover have "ys = filter_map_stream us (c @ c1)"
      using r(2) c1(2) a(3) by (simp add: filter_map_stream_append)
    ultimately show ?thesis using w by blast
  next
    assume a: "next_loop us q = (IterPending, [])" "filter_map_stream us q = []"
    then have "ys = []" "q' = []" using Suc.prems by simp_all
    then show ?thesis using a(2) by simp
  qed
qed

lemma tokensUpdated_resume_running:
  "baseIterator sub < length ps \<Longrightarrow> running (ps ! baseIterator sub) \<Longrightarrow>
   resume_loop (upperSymbols sub) (pullQueue (ps ! baseIterator sub))
     (pushQueue (ps ! baseIterator sub)) = (ys, w, q) \<Longrightarrow>
   tokensUpdated_resume sub ps =
     (ys, ps[baseIterator sub := (ps ! baseIterator sub)\<lparr>pushQueue := q, pullQueue := w\<rparr>])"
  by (simp add: tokensUpdated_resume_def Let_def)

lemma consume_invariant:
  "baseIterator sub < length ps \<Longrightarrow> running (ps ! baseIterator sub) \<Longrightarrow>
   pullQueue (ps ! baseIterator sub) = 0 \<or> pushQueue (ps ! baseIterator sub) = [] \<Longrightarrow>
   consume sub evs ps = (ys, ps') \<Longrightarrow>
   baseIterator sub < length ps' \<and> running (ps' ! baseIterator sub) \<and>
   (pullQueue (ps' ! baseIterator sub) = 0 \<or> pushQueue (ps' ! baseIterator sub) = []) \<and>
   (\<exists>c. pushQueue (ps ! baseIterator sub) @ published evs = c @ pushQueue (ps' ! baseIterator sub) \<and>
        ys = filter_map_stream (upperSymbols sub) c)"
proof (induction evs arbitrary: ps ys)
  case Nil
  then show ?case by (auto simp: filter_map_stream_def)
next
  case (Cons ev evs)
  let ?h = "baseIterator sub"
  let ?us = "upperSymbols sub"
  let ?q = "pushQueue (ps ! ?h)"
  show ?case
  proof (cases ev)
    case (Publish b)
    let ?pp = "pubsub_publish b ps"
    have hp: "?h < length ?pp" "running (?pp ! ?h)"
      using Cons.prems(1,2) by (simp_all add: length_pubsub_publish nth_pubsub_publish)
    have qp: "pushQueue (?pp ! ?h) = ?q @ [b]" "pullQueue (?pp ! ?h) = pullQueue (ps ! ?h)"
      using Cons.prems(1,2) by (simp_all add: nth_pubsub_publish)
    obtain ys1 w q1 where rl: "resume_loop ?us (pullQueue (?pp ! ?h)) (pushQueue (?pp ! ?h)) = (ys1, w, q1)"
      by (metis prod.collapse)
    let ?ps1 = "?pp[?h := (?pp ! ?h)\<lparr>pushQueue := q1, pullQueue := w\<rparr>]"
    have rs: "tokensUpdated_resume sub ?pp = (ys1, ?ps1)"
      using hp rl by (rule tokensUpdated_resume_running)
    from resume_loop_split [OF rl] obtain c0 where c0: "?q @ [b] = c0 @ q1"
      "ys1 = filter_map_stream ?us c0" and w: "w = 0 \<or> q1 = []"
      using qp(1) by auto
    have h1: "?h < length ?ps1" "running (?ps1 ! ?h)"
      using hp by simp_all
    have q1: "pushQueue (?ps1 ! ?h) = q1" "pullQueue (?ps1 ! ?h) = w"
      using hp(1) by simp_all
    have i1: "pullQueue (?ps1 ! ?h) = 0 \<or> pushQueue (?ps1 ! ?h) = []"
      using w q1 by simp
    obtain ys2 where ys2: "consume sub evs ?ps1 = (ys2, ps')" "ys = ys1 @ ys2"
      using Cons.prems(4) Publish rs by (auto split: prod.splits)
    from Cons.IH [OF h1 i1 ys2(1)] obtain c1 where c1: "?h < length ps'" "running (ps' ! ?h)"
      "pullQueue (ps' ! ?h) = 0 \<or> pushQueue (ps' ! ?h) = []"
      "pushQueue (?ps1 ! ?h) @ published evs = c1 @ pushQueue (ps' ! ?h)"
      "ys2 = filter_map_stream ?us c1"
      by blast
    have "q1 @ published evs = c1 @ pushQueue (ps' ! ?h)"
      using c1(4) q1(1) by simp
    then have "?q @ published (ev # evs) = (c0 @ c1) @ pushQueue (ps' ! ?h)"
      using c0(1) Publish by (metis append.assoc append_Cons append_Nil published.simps(2))
    moreover have "ys = filter_map_stream ?us (c0 @ c1)"
      using ys2(2) c1(5) c0(2) by (simp add: filter_map_stream_append)
    ultimately show ?thesis using c1(1,2,3) by blast
  next
    case Next
    let ?r = "fst (next_loop ?us ?q)"
    let ?ps1 = "ps[?h := (ps ! ?h)\<lparr>pushQueue := snd (next_loop ?us ?q),
        pullQueue := (if ?r = IterPending then Suc (pullQueue (ps ! ?h)) else pullQueue (ps ! ?h))\<rparr>]"
    have nx: "tokensUpdated_next sub ps = (?r, ?ps1)"
      using Cons.prems(1,2) by (rule tokensUpdated_next_running)
    have h1: "?h < length ?ps1" "running (?ps1 ! ?h)"
      using Cons.prems(1,2) by simp_all
    have q1: "pushQueue (?ps1 ! ?h) = snd (next_loop ?us ?q)"
      "pullQueue (?ps1 ! ?h) = (if ?r = IterPending then Suc (pullQueue (ps ! ?h)) else pullQueue (ps ! ?h))"
      using Cons.prems(1) by simp_all
    from next_loop_cases [of ?us ?q] show ?thesis
    proof (elim disjE exE conjE)
      fix y q' c
      assume a: "next_loop ?us ?q = (IterValue y, q')" "?q = c @ q'" "filter_map_stream ?us c = [y]"
      have "c \<noteq> []" using a(3) by (auto simp: filter_map_stream_def)
      then have "?q \<noteq> []" using a(2) by simp
      then have "pullQueue (ps ! ?h) = 0" using Cons.prems(3) by simp
      then have i1: "pullQueue (?ps1 ! ?h) = 0 \<or> pushQueue (?ps1 ! ?h) = []"
        using q1(2) a(1) by simp
      obtain ys1 where ys1: "consume sub evs ?ps1 = (ys1, ps')" "ys = y # ys1"
        using Cons.prems(4) Next nx a(1) by (auto split: prod.splits)
      from Cons.IH [OF h1 i1 ys1(1)] obtain c1 where c1: "?h < length ps'" "running (ps' ! ?h)"
        "pullQueue (ps' ! ?h) = 0 \<or> pushQueue (ps' ! ?h) = []"
        "pushQueue (?ps1 ! ?h) @ published evs = c1 @ pushQueue (ps' ! ?h)"
        "ys1 = filter_map_stream ?us c1"
        by blast
      have "q' @ published evs = c1 @ pushQueue (ps' ! ?h)"
        using c1(4) q1(1) a(1) by simp
      then have "?q @ published (ev # evs) = (c @ c1) @ pushQueue (ps' ! ?h)"
        using a(2) Next by simp
      moreover have "ys = filter_map_stream ?us (c @ c1)"
        using ys1(2) c1(5) a(3) by (simp add: filter_map_stream_append)
      ultimately show ?thesis using c1(1,2,3) by blast
    next
      assume a: "next_loop ?us ?q = (IterPending, [])" "filter_map_stream ?us ?q = []"
      have i1: "pullQueue (?ps1 ! ?h) = 0 \<or> pushQueue (?ps1 ! ?h) = []"
        using q1(1) a(1) by simp
      have cs: "consume sub evs ?ps1 = (ys, ps')"
        using Cons.prems(4) Next nx a(1) by simp
      from Cons.IH [OF h1 i1 cs] obtain c1 where c1: "?h < length ps'" "running (ps' ! ?h)"
        "pullQueue (ps' ! ?h) = 0 \<or> pushQueue (ps' ! ?h) = []"
        "pushQueue (?ps1 ! ?h) @ published evs = c1 @ pushQueue (ps' ! ?h)"
        "ys = filter_map_stream ?us c1"
        by blast
      have "published evs = c1 @ pushQueue (ps' ! ?h)"
        using c1(4) q1(1) a(1) by simp
      then have "?q @ published (ev # evs) = (?q @ c1) @ pushQueue (ps' ! ?h)"
        using Next by simp
      moreover have "ys = filter_map_stream ?us (?q @ c1)"
        using c1(5) a(2) by (simp add: filter_map_stream_append)
      ultimately show ?thesis using c1(1,2,3) by blast
    qed
  qed
qed

lemma tokensUpdated_subscribe_eq:
  "tokensUpdated_subscribe uc S ps =
     (Inr \<lparr>upperSymbols = map (toUpperCase uc) S, baseIterator = length ps\<rparr>,
      ps @ [\<lparr>pushQueue = [], pullQueue = 0, running = True\<rparr>])"
  by (simp add: tokensUpdated_subscribe_def pubsub_asyncIterator_def)

lemma subscribe_fresh:
  assumes "tokensUpdated_subscribe uc S ps = (Inr sub, ps1)"
  shows "upperSymbols sub = map (toUpperCase uc) S" "baseIterator sub < length ps1"
    "running (ps1 ! baseIterator sub)" "pushQueue (ps1 ! baseIterator sub) = []"
    "pullQueue (ps1 ! baseIterator sub) = 0"
  using assms unfolding tokensUpdated_subscribe_eq by auto

lemma consume_after_subscribe:
  assumes "tokensUpdated_subscribe uc S ps = (Inr sub, ps1)" "consume sub evs ps1 = (ys, ps2)"
  shows "(\<exists>c. published evs = c @ pushQueue (ps2 ! baseIterator sub) \<and>
     ys = filter_map_stream (map (toUpperCase uc) S) c) \<and>
     (pullQueue (ps2 ! baseIterator sub) = 0 \<or> pushQueue (ps2 ! baseIterator sub) = [])"
proof -
  have i: "pullQueue (ps1 ! baseIterator sub) = 0 \<or> pushQueue (ps1 ! baseIterator sub) = []"
    using subscribe_fresh(5) [OF assms(1)] by simp
  from consume_invariant [OF subscribe_fresh(2,3) [OF assms(1)] i assms(2)]
    subscribe_fresh(1,4) [OF assms(1)] show ?thesis by simp
qed

subsection \<open>The store and one tick\<close>

lemma map_fst_assign_token: "map fst (assign_token k v st) = map fst st"
  by (induction st) (auto simp: assign_token_def)

lemma map_of_assign_token:
  "map_of (assign_token k v st) k' =
     (if k' = k \<and> k \<in> fst ` set st then Some v else map_of st k')"
proof (induction st)
  case Nil
  then show ?case by (simp add: assign_token_def)
next
  case (Cons e st)
  obtain a b where e: "e = (a, b)" by (cases e)
  have step: "assign_token k v (e # st) =
      (if a = k then (a, v) else (a, b)) # assign_token k v st"
    by (simp add: assign_token_def e)
  show ?case unfolding step using Cons.IH by (cases "k' = k") (auto simp: e)
qed

lemma map_of_Some_key: "map_of st k = Some t \<Longrightarrow> k \<in> fst ` set st"
  by (metis map_of_eq_None_iff option.distinct(1))

lemma same_identity_update_token: "same_identity t (update_token ar r1 r2 t)"
  by (simp add: same_identity_def update_token_def Let_def)

lemma same_identity_refl: "same_identity t t"
  by (simp add: same_identity_def)

lemma same_identity_trans: "same_identity a b \<Longrightarrow> same_identity b c \<Longrightarrow> same_identity a c"
  by (simp add: same_identity_def)

lemma forEach_update_keys:
  "forEach_update ar draws i ks st acc = Inr (st', b) \<Longrightarrow> map fst st' = map fst st"
proof (induction ks arbitrary: i st acc)
  case Nil
  then show ?case by simp
next
  case (Cons k ks)
  then show ?case
    by (auto split: option.splits simp: Let_def map_fst_assign_token dest!: Cons.IH)
qed

lemma forEach_update_frame:
  "forEach_update ar draws i ks st acc = Inr (st', b) \<Longrightarrow> k \<notin> set ks \<Longrightarrow>
   map_of st' k = map_of st k"
proof (induction ks arbitrary: i st acc)
  case Nil
  then show ?case by simp
next
  case (Cons k' ks)
  then show ?case
    by (auto split: option.splits simp: Let_def map_of_assign_token dest!: Cons.IH)
qed

lemma forEach_update_identity:
  "forEach_update ar draws i ks st acc = Inr (st', b) \<Longrightarrow> map_of st k = Some t \<Longrightarrow>
   \<exists>t'. map_of st' k = Some t' \<and> same_identity t t'"
proof (induction ks arbitrary: i st acc t)
  case Nil
  then show ?case by (auto simp: same_identity_refl)
next
  case (Cons k' ks)
  from Cons.prems(1) obtain u where u: "map_of st k' = Some u"
    by (auto split: option.splits)
  let ?u' = "update_token ar (fst (draws i)) (snd (draws i)) u"
  let ?st1 = "assign_token k' ?u' st"
  have run: "forEach_update ar draws (Suc i) ks ?st1 (acc @ [?u']) = Inr (st', b)"
    using Cons.prems(1) u by (simp add: Let_def)
  have "\<exists>t1. map_of ?st1 k = Some t1 \<and> same_identity t t1"
  proof (cases "k = k'")
    case True
    then have "map_of ?st1 k = Some ?u'"
      using u by (simp add: map_of_assign_token map_of_Some_key)
    moreover have "same_identity t ?u'"
      using True u Cons.prems(2) by (simp add: same_identity_update_token)
    ultimately show ?thesis by blast
  next
    case False
    then show ?thesis using Cons.prems(2)
      by (simp add: map_of_assign_token same_identity_refl)
  qed
  then obtain t1 where t1: "map_of ?st1 k = Some t1" "same_identity t t1" by blast
  from Cons.IH [OF run t1(1)] obtain t' where "map_of st' k = Some t'" "same_identity t1 t'"
    by blast
  then show ?case using t1(2) same_identity_trans by blast
qed

lemma forEach_update_total:
  "set ks \<subseteq> fst ` set st \<Longrightarrow> \<exists>st' b. forEach_update ar draws i ks st acc = Inr (st', b)"
proof (induction ks arbitrary: i st acc)
  case Nil
  then show ?case by simp
next
  case (Cons k ks)
  then obtain t where t: "map_of st k = Some t"
    by (metis list.set_intros(1) map_of_eq_None_iff not_None_eq subsetD)
  let ?t' = "update_token ar (fst (draws i)) (snd (draws i)) t"
  have "set ks \<subseteq> fst ` set (assign_token k ?t' st)"
    using Cons.prems
    by (metis list.set_map map_fst_assign_token set_subset_Cons subset_trans)
  from Cons.IH [OF this] show ?case using t by (simp add: Let_def)
qed

text \<open>
  The updated tokens, in the order of the chosen keys, when the chosen keys are distinct:
  each is the update of the token the store held before, and the store holds it afterwards.
\<close>

lemma forEach_update_chosen:
  "distinct ks \<Longrightarrow> forEach_update ar draws i ks st acc = Inr (st', b) \<Longrightarrow>
   \<exists>new. b = acc @ new \<and> length new = length ks \<and>
     (\<forall>j < length ks. \<exists>t. map_of st (ks ! j) = Some t \<and>
        new ! j = update_token ar (fst (draws (i + j))) (snd (draws (i + j))) t \<and>
        map_of st' (ks ! j) = Some (new ! j))"
proof (induction ks arbitrary: i st acc)
  case Nil
  then show ?case by simp
next
  case (Cons k ks)
  from Cons.prems(2) obtain u where u: "map_of st k = Some u"
    by (auto split: option.splits)
  let ?u' = "update_token ar (fst (draws i)) (snd (draws i)) u"
  let ?st1 = "assign_token k ?u' st"
  have run: "forEach_update ar draws (Suc i) ks ?st1 (acc @ [?u']) = Inr (st', b)"
    using Cons.prems(2) u by (simp add: Let_def)
  have d: "distinct ks" "k \<notin> set ks" using Cons.prems(1) by simp_all
  from Cons.IH [OF d(1) run] obtain new where new: "b = (acc @ [?u']) @ new" "length new = length ks"
    "\<forall>j < length ks. \<exists>t. map_of ?st1 (ks ! j) = Some t \<and>
        new ! j = update_token ar (fst (draws (Suc i + j))) (snd (draws (Suc i + j))) t \<and>
        map_of st' (ks ! j) = Some (new ! j)" by blast
  have k_final: "map_of st' k = Some ?u'"
    using forEach_update_frame [OF run d(2)] u
    by (simp add: map_of_assign_token map_of_Some_key)
  have "\<forall>j < length (k # ks). \<exists>t. map_of st ((k # ks) ! j) = Some t \<and>
        (?u' # new) ! j = update_token ar (fst (draws (i + j))) (snd (draws (i + j))) t \<and>
        map_of st' ((k # ks) ! j) = Some ((?u' # new) ! j)"
  proof (intro allI impI)
    fix j assume j: "j < length (k # ks)"
    show "\<exists>t. map_of st ((k # ks) ! j) = Some t \<and>
        (?u' # new) ! j = update_token ar (fst (draws (i + j))) (snd (draws (i + j))) t \<and>
        map_of st' ((k # ks) ! j) = Some ((?u' # new) ! j)"
    proof (cases j)
      case 0
      then show ?thesis using u k_final by simp
    next
      case (Suc m)
      then have m: "m < length ks" using j by simp
      then have "ks ! m \<noteq> k" using d(2) by (metis nth_mem)
      then have eq: "map_of ?st1 (ks ! m) = map_of st (ks ! m)"
        by (simp add: map_of_assign_token)
      from new(3) m obtain t where t: "map_of ?st1 (ks ! m) = Some t"
        "new ! m = update_token ar (fst (draws (Suc i + m))) (snd (draws (Suc i + m))) t"
        "map_of st' (ks ! m) = Some (new ! m)" by blast
      show ?thesis using t eq Suc by simp
    qed
  qed
  moreover have "b = acc @ (?u' # new)" using new(1) by simp
  moreover have "length (?u' # new) = length (k # ks)" using new(2) by simp
  ultimately show ?case by blast
qed

lemma store_identity_refl: "store_identity st st"
  by (simp add: store_identity_def same_identity_refl)

lemma store_identity_trans:
  "store_identity a b \<Longrightarrow> store_identity b c \<Longrightarrow> store_identity a c"
  unfolding store_identity_def by (metis same_identity_trans)

lemma store_identity_back:
  assumes "store_identity st st'" and "map_of st' k = Some t'"
  shows "\<exists>t. map_of st k = Some t \<and> same_identity t t'"
proof -
  have "k \<in> fst ` set st'" using assms(2) by (rule map_of_Some_key)
  then have "k \<in> fst ` set st"
    using assms(1) by (metis store_identity_def list.set_map)
  then obtain t where t: "map_of st k = Some t"
    by (metis map_of_eq_None_iff not_None_eq)
  then obtain t'' where "map_of st' k = Some t''" "same_identity t t''"
    using assms(1) unfolding store_identity_def by blast
  then show ?thesis using t assms(2) by auto
qed

lemma forEach_update_store_identity:
  "forEach_update ar draws i ks st acc = Inr (st', b) \<Longrightarrow> store_identity st st'"
  unfolding store_identity_def
  using forEach_update_keys forEach_update_identity by blast

lemma forEach_update_batch_origin:
  "forEach_update ar draws i ks st acc = Inr (st', b) \<Longrightarrow> e \<in> set b \<Longrightarrow>
   e \<in> set acc \<or> (\<exists>k t. map_of st k = Some t \<and> same_identity t e)"
proof (induction ks arbitrary: i st acc)
  case Nil
  then show ?case by simp
next
  case (Cons k' ks)
  from Cons.prems(1) obtain u where u: "map_of st k' = Some u"
    by (auto split: option.splits)
  let ?u' = "update_token ar (fst (draws i)) (snd (draws i)) u"
  let ?st1 = "assign_token k' ?u' st"
  have run: "forEach_update ar draws (Suc i) ks ?st1 (acc @ [?u']) = Inr (st', b)"
    using Cons.prems(1) u by (simp add: Let_def)
  from Cons.IH [OF run Cons.prems(2)]
  consider "e \<in> set acc" | "e = ?u'" | k t1 where "map_of ?st1 k = Some t1" "same_identity t1 e"
    by auto
  then show ?case
  proof cases
    case 1
    then show ?thesis by simp
  next
    case 2
    then have "same_identity u e" by (simp add: same_identity_update_token)
    then show ?thesis using u by blast
  next
    case 3
    show ?thesis
    proof (cases "k = k'")
      case True
      then have "t1 = ?u'" using 3(1) u by (simp add: map_of_assign_token map_of_Some_key)
      then have "same_identity u e"
        using 3(2) same_identity_update_token same_identity_trans by blast
      then show ?thesis using u by blast
    next
      case False
      then have "map_of st k = Some t1" using 3(1) by (simp add: map_of_assign_token)
      then show ?thesis using 3(2) by blast
    qed
  qed
qed

lemma tick_store_identity:
  "simulatePriceUpdates_tick ar r st = Inr (st', b) \<Longrightarrow> store_identity st st'"
  unfolding simulatePriceUpdates_tick_def by (rule forEach_update_store_identity)

lemma tick_batch_origin:
  "simulatePriceUpdates_tick ar r st = Inr (st', b) \<Longrightarrow> e \<in> set b \<Longrightarrow>
   \<exists>k t. map_of st k = Some t \<and> same_identity t e"
  unfolding simulatePriceUpdates_tick_def
  using forEach_update_batch_origin by fastforce

lemma run_ticks_identity:
  "run_ticks ar rs st = Inr (st', bs) \<Longrightarrow>
   store_identity st st' \<and>
   (\<forall>b \<in> set bs. \<forall>e \<in> set b. \<exists>k t. map_of st k = Some t \<and> same_identity t e)"
proof (induction rs arbitrary: st st' bs)
  case Nil
  then show ?case by (simp add: store_identity_refl)
next
  case (Cons r rs)
  from Cons.prems obtain st1 b bs1 where
    step: "simulatePriceUpdates_tick ar r st = Inr (st1, b)"
    and rest: "run_ticks ar rs st1 = Inr (st', bs1)"
    and bs: "bs = b # bs1"
    by (auto split: sum.splits prod.splits)
  have id1: "store_identity st st1" using step by (rule tick_store_identity)
  from Cons.IH [OF rest] have id2: "store_identity st1 st'"
    and later: "\<forall>b \<in> set bs1. \<forall>e \<in> set b. \<exists>k t. map_of st1 k = Some t \<and> same_identity t e"
    by simp_all
  have "\<forall>b' \<in> set bs. \<forall>e \<in> set b'. \<exists>k t. map_of st k = Some t \<and> same_identity t e"
  proof (intro ballI)
    fix b' e assume b': "b' \<in> set bs" and e: "e \<in> set b'"
    show "\<exists>k t. map_of st k = Some t \<and> same_identity t e"
    proof (cases "b' = b")
      case True
      then show ?thesis using tick_batch_origin [OF step] e by blast
    next
      case False
      then have "b' \<in> set bs1" using b' bs by simp
      then obtain k t1 where t1: "map_of st1 k = Some t1" "same_identity t1 e"
        using later e by blast
      from store_identity_back [OF id1 t1(1)] obtain t where
        "map_of st k = Some t" "same_identity t t1" by blast
      then show ?thesis using t1(2) same_identity_trans by blast
    qed
  qed
  then show ?case using id1 id2 store_identity_trans by blast
qed

lemma wf_store_key_symbol: "wf_store st \<Longrightarrow> map_of st k = Some t \<Longrightarrow> symbol t = k"
  unfolding wf_store_def by (auto dest: map_of_SomeD)

lemma wf_store_id_inj:
  assumes "wf_store st" "map_of st k1 = Some t1" "map_of st k2 = Some t2"
    "tokenResourceId t1 = tokenResourceId t2"
  shows "k1 = k2"
proof -
  have m: "(k1, t1) \<in> set st" "(k2, t2) \<in> set st"
    using assms(2,3) by (auto dest: map_of_SomeD)
  have "inj_on (tokenResourceId \<circ> snd) (set st)"
    using assms(1) by (simp add: wf_store_def distinct_map)
  moreover have "(tokenResourceId \<circ> snd) (k1, t1) = (tokenResourceId \<circ> snd) (k2, t2)"
    using assms(4) by simp
  ultimately have "(k1, t1) = (k2, t2)"
    using m by (rule inj_onD)
  then show ?thesis by simp
qed

lemma wf_store_preserved:
  assumes "wf_store st" and "store_identity st st'"
  shows "wf_store st'"
proof -
  have keys: "map fst st' = map fst st" using assms(2) by (simp add: store_identity_def)
  have dk: "distinct (map fst st)" using assms(1) by (simp add: wf_store_def)
  then have dk': "distinct (map fst st')" using keys by simp
  have len: "length st' = length st" using keys by (metis length_map)
  have sym: "\<forall>(k, t) \<in> set st'. symbol t = k"
  proof (clarify)
    fix k t' assume "(k, t') \<in> set st'"
    then have "map_of st' k = Some t'" using dk' by simp
    from store_identity_back [OF assms(2) this] obtain t where
      t: "map_of st k = Some t" "same_identity t t'" by blast
    have "symbol t = k" using assms(1) t(1) by (rule wf_store_key_symbol)
    then show "symbol t' = k" using t(2) by (simp add: same_identity_def)
  qed
  have "map (tokenResourceId \<circ> snd) st' = map (tokenResourceId \<circ> snd) st"
  proof (rule nth_equalityI)
    show "length (map (tokenResourceId \<circ> snd) st') = length (map (tokenResourceId \<circ> snd) st)"
      using len by simp
  next
    fix i assume "i < length (map (tokenResourceId \<circ> snd) st')"
    then have i: "i < length st" "i < length st'" using len by simp_all
    have fi: "fst (st' ! i) = fst (st ! i)"
      using keys i by (metis nth_map)
    have "st ! i \<in> set st" using i(1) by simp
    then have m: "map_of st (fst (st ! i)) = Some (snd (st ! i))" using dk by simp
    have "st' ! i \<in> set st'" using i(2) by simp
    then have m': "map_of st' (fst (st ! i)) = Some (snd (st' ! i))"
      using dk' fi by (metis map_of_eq_Some_iff prod.collapse)
    from assms(2) m obtain t'' where "map_of st' (fst (st ! i)) = Some t''"
      "same_identity (snd (st ! i)) t''" unfolding store_identity_def by blast
    then have "tokenResourceId (snd (st' ! i)) = tokenResourceId (snd (st ! i))"
      using m' by (simp add: same_identity_def)
    then show "map (tokenResourceId \<circ> snd) st' ! i = map (tokenResourceId \<circ> snd) st ! i"
      using i by simp
  qed
  then have "distinct (map (tokenResourceId \<circ> snd) st')"
    using assms(1) by (simp add: wf_store_def)
  then show ?thesis using dk' sym by (simp add: wf_store_def)
qed

lemma tick_wf_store:
  "wf_store st \<Longrightarrow> simulatePriceUpdates_tick ar r st = Inr (st', b) \<Longrightarrow> wf_store st'"
  using wf_store_preserved tick_store_identity by blast

lemma shuffled_set: "shuffle_ok st r \<Longrightarrow> set (shuffled r) = fst ` set st"
  unfolding shuffle_ok_def by (metis list.set_map mset_eq_setD)

lemma symbolsToUpdate_subset: "shuffle_ok st r \<Longrightarrow> set (symbolsToUpdate r) \<subseteq> fst ` set st"
  using shuffled_set [of st r] set_take_subset [of "numToUpdate r" "shuffled r"]
  by (simp add: symbolsToUpdate_def)

lemma symbolsToUpdate_distinct:
  "distinct (map fst st) \<Longrightarrow> shuffle_ok st r \<Longrightarrow> distinct (symbolsToUpdate r)"
  unfolding shuffle_ok_def symbolsToUpdate_def
  by (metis distinct_take mset_eq_imp_distinct_iff)

lemma symbolsToUpdate_length:
  assumes "shuffle_ok st r" "st \<noteq> []"
  shows "length (symbolsToUpdate r) = 1 \<or> length (symbolsToUpdate r) = 2"
proof -
  have "length (shuffled r) = length st"
    using assms(1) unfolding shuffle_ok_def by (metis length_map mset_eq_length)
  then have pos: "1 \<le> length (shuffled r)" using assms(2) by (cases st) simp_all
  have n: "numToUpdate r = 1 \<or> numToUpdate r = 2" by (simp add: numToUpdate_def)
  have l: "length (symbolsToUpdate r) = min (length (shuffled r)) (numToUpdate r)"
    by (simp add: symbolsToUpdate_def)
  show ?thesis using pos n unfolding l by arith
qed

lemma tick_total:
  "shuffle_ok st r \<Longrightarrow> \<exists>st' b. simulatePriceUpdates_tick ar r st = Inr (st', b)"
  unfolding simulatePriceUpdates_tick_def
  by (rule forEach_update_total) (rule symbolsToUpdate_subset)

lemma tick_chosen:
  assumes "distinct (map fst st)" "shuffle_ok st r" "simulatePriceUpdates_tick ar r st = Inr (st', b)"
  shows "length b = length (symbolsToUpdate r) \<and>
     (\<forall>j < length (symbolsToUpdate r). \<exists>t. map_of st (symbolsToUpdate r ! j) = Some t \<and>
        b ! j = update_token ar (fst (rnd_update r j)) (snd (rnd_update r j)) t \<and>
        map_of st' (symbolsToUpdate r ! j) = Some (b ! j))"
  using forEach_update_chosen [OF symbolsToUpdate_distinct [OF assms(1,2)]
      assms(3) [unfolded simulatePriceUpdates_tick_def]]
  by auto

lemma batch_entity_initial_id:
  assumes "wf_store st" "run_ticks ar rs st = Inr (st', bs)" "b \<in> set bs" "e \<in> set b"
  shows "\<exists>t. map_of st (symbol e) = Some t \<and> tokenResourceId t = tokenResourceId e"
proof -
  from run_ticks_identity [OF assms(2)] assms(3,4) obtain k t where
    t: "map_of st k = Some t" "same_identity t e" by blast
  have "symbol t = k" using assms(1) t(1) by (rule wf_store_key_symbol)
  then show ?thesis using t by (auto simp: same_identity_def)
qed

lemma store_entity_initial_id:
  assumes "wf_store st" "run_ticks ar rs st = Inr (st', bs)" "map_of st' k = Some e"
  shows "\<exists>t. map_of st (symbol e) = Some t \<and> tokenResourceId t = tokenResourceId e"
proof -
  from run_ticks_identity [OF assms(2)] have "store_identity st st'" by simp
  from store_identity_back [OF this assms(3)] obtain t where
    t: "map_of st k = Some t" "same_identity t e" by blast
  have "symbol t = k" using assms(1) t(1) by (rule wf_store_key_symbol)
  then show ?thesis using t by (auto simp: same_identity_def)
qed

subsection \<open>The example inputs\<close>

lemmas example_defs = rand_example_def example_SOL_def example_ETH_def example_store_def
  example_batch_def tokens_def tokens_ETH_def tokens_BTC_def tokens_SOL_def ar_example_def

lemma wf_store_tokens: "wf_store tokens"
  by (simp add: wf_store_def example_defs)

lemma tokens_nonempty: "tokens \<noteq> []"
  by (simp add: tokens_def)

lemma shuffle_ok_example: "shuffle_ok tokens rand_example"
  by (simp add: shuffle_ok_def example_defs)

lemma tick_example:
  "simulatePriceUpdates_tick ar_example rand_example tokens = Inr (example_store, example_batch)"
  by (simp add: simulatePriceUpdates_tick_def symbolsToUpdate_def numToUpdate_def
      update_token_def assign_token_def Math_round_def Let_def example_defs)

lemma run_ticks_example:
  "run_ticks ar_example [rand_example] tokens = Inr (example_store, [example_batch])"
  by (simp add: tick_example)

lemma subscribe_example:
  "tokensUpdated_subscribe uc_example [''eth'', ''sol''] [] =
     (Inr example_sub, [\<lparr>pushQueue = [], pullQueue = 0, running = True\<rparr>])"
  by (simp add: tokensUpdated_subscribe_eq example_sub_def toUpperCase_examples)

section \<open>Properties\<close>

subsection \<open>C1: what the subscription filter yields for a raw batch\<close>

text \<open>
  C1 as stated (the filter yields a batch if and only if the raw batch holds an entity
  whose id is in the requested set) does not hold. A subscription that requests the id
  \<open>token:bitcoin:native\<close> receives a raw batch holding the entity with that id, and
  its \<open>next()\<close> yields nothing: the filter compares the upper-cased requested strings
  with the \<open>symbol\<close> field, never with \<open>tokenResourceId\<close>.
\<close>

theorem filter_by_id_counterexample:
  "tokenResourceId tokens_BTC \<in> set [''token:bitcoin:native''] \<and>
   fst (tokensUpdated_next
          (projr (fst (tokensUpdated_subscribe uc_example [''token:bitcoin:native''] [])))
          (pubsub_publish [tokens_BTC] (snd (tokensUpdated_subscribe uc_example [''token:bitcoin:native''] []))))
     = IterPending"
  by code_simp

text \<open>
  C1, amended: matching is by symbol. For a subscription made for the requested list
  \<open>S\<close> whose raw feed holds the batch \<open>B\<close> next, \<open>next()\<close> yields a batch for
  \<open>B\<close> if and only if some entity of \<open>B\<close> has its symbol among the upper-cased members
  of \<open>S\<close>; the yielded batch is exactly the entities of \<open>B\<close> with such a symbol, in the
  order they have in \<open>B\<close>, and \<open>B\<close> is removed from the feed. Otherwise \<open>B\<close> is
  discarded and the call goes on with the rest of the feed.
\<close>

theorem filter_yields_symbol_matches:
  assumes "baseIterator sub < length ps" and "running (ps ! baseIterator sub)"
    and "pushQueue (ps ! baseIterator sub) = B # q"
    and "upperSymbols sub = map (toUpperCase uc) S"
  shows "tokensUpdated_next sub ps =
     (if \<exists>t \<in> set B. symbol t \<in> toUpperCase uc ` set S
      then (IterValue (filter (\<lambda>t. symbol t \<in> toUpperCase uc ` set S) B),
            ps[baseIterator sub := (ps ! baseIterator sub)\<lparr>pushQueue := q\<rparr>])
      else tokensUpdated_next sub (ps[baseIterator sub := (ps ! baseIterator sub)\<lparr>pushQueue := q\<rparr>]))"
proof -
  let ?h = "baseIterator sub"
  let ?ps1 = "ps[?h := (ps ! ?h)\<lparr>pushQueue := q\<rparr>]"
  have h1: "?h < length ?ps1" "running (?ps1 ! ?h)" "pushQueue (?ps1 ! ?h) = q"
    using assms(1,2) by simp_all
  have e: "(filter (\<lambda>t. symbol t \<in> toUpperCase uc ` set S) B = []) \<longleftrightarrow>
      \<not> (\<exists>t \<in> set B. symbol t \<in> toUpperCase uc ` set S)"
    by (auto simp: filter_empty_conv)
  show ?thesis
    unfolding tokensUpdated_next_running [OF assms(1,2)] tokensUpdated_next_running [OF h1(1,2)]
    using assms(1) e by (simp add: assms(3,4) h1(3) Let_def)
qed

text \<open>
  The amended C1 at a concrete input: a subscription to eth and sol receives the raw
  batch SOL, BTC, ETH and yields SOL, ETH.
\<close>

theorem filter_yields_symbol_matches_witness:
  "baseIterator example_sub < length [\<lparr>pushQueue = [[tokens_SOL, tokens_BTC, tokens_ETH]], pullQueue = 0, running = True\<rparr>] \<and>
   running ([\<lparr>pushQueue = [[tokens_SOL, tokens_BTC, tokens_ETH]], pullQueue = 0, running = True\<rparr>] ! baseIterator example_sub) \<and>
   pushQueue ([\<lparr>pushQueue = [[tokens_SOL, tokens_BTC, tokens_ETH]], pullQueue = 0, running = True\<rparr>] ! baseIterator example_sub)
     = [tokens_SOL, tokens_BTC, tokens_ETH] # [] \<and>
   upperSymbols example_sub = map (toUpperCase uc_example) [''eth'', ''sol''] \<and>
   tokensUpdated_next example_sub [\<lparr>pushQueue = [[tokens_SOL, tokens_BTC, tokens_ETH]], pullQueue = 0, running = True\<rparr>]
     = (IterValue [tokens_SOL, tokens_ETH], [\<lparr>pushQueue = [], pullQueue = 0, running = True\<rparr>])"
proof -
  let ?ps = "[\<lparr>pushQueue = [[tokens_SOL, tokens_BTC, tokens_ETH]], pullQueue = 0, running = True\<rparr>]"
  have h1: "baseIterator example_sub < length ?ps" by (simp add: example_sub_def)
  have h2: "running (?ps ! baseIterator example_sub)" by (simp add: example_sub_def)
  have h3: "pushQueue (?ps ! baseIterator example_sub) = [tokens_SOL, tokens_BTC, tokens_ETH] # []"
    by (simp add: example_sub_def)
  have h4: "upperSymbols example_sub = map (toUpperCase uc_example) [''eth'', ''sol'']"
    by (simp add: example_sub_def toUpperCase_examples)
  show ?thesis
    using filter_yields_symbol_matches [OF h1 h2 h3 h4] h1 h2 h3 h4
    by (simp add: toUpperCase_examples tokens_SOL_def tokens_BTC_def tokens_ETH_def example_sub_def)
qed

subsection \<open>C2: the identifier is stable across all emissions\<close>

text \<open>
  C2: every emitted entity carries the identifier field \<open>tokenResourceId\<close>, and its
  value is the one the initial store holds for the entity's symbol. This holds for the
  result of the \<open>token\<close> query and every element of the \<open>tokens\<close> query after any number
  \<open>n\<close> of ticks, and for every entity of every batch a subscription yields from the
  batches the ticks publish. Hence a query result and a subscription payload with the same
  symbol carry the same identifier. This holds whatever the arithmetic of the engine and
  its upper-casing of strings outside ASCII are.
\<close>

theorem identifier_stable:
  assumes "wf_store st" and "run_ticks ar rs st = Inr (st', bs)"
    and "run_ticks ar (take n rs) st = Inr (stn, bsn)"
    and "tokensUpdated_subscribe uc S ps = (Inr sub, ps1)"
    and "set (published evs) \<subseteq> set bs"
  shows "(\<forall>s q. Query_token uc stn s = Some q \<longrightarrow>
            map_option tokenResourceId (map_of st (symbol q)) = Some (tokenResourceId q)) \<and>
         (\<forall>q \<in> set (Query_tokens stn).
            map_option tokenResourceId (map_of st (symbol q)) = Some (tokenResourceId q)) \<and>
         (\<forall>y \<in> set (fst (consume sub evs ps1)). \<forall>e \<in> set y.
            map_option tokenResourceId (map_of st (symbol e)) = Some (tokenResourceId e)) \<and>
         (\<forall>s q. Query_token uc stn s = Some q \<longrightarrow>
            (\<forall>y \<in> set (fst (consume sub evs ps1)). \<forall>e \<in> set y.
               symbol e = symbol q \<longrightarrow> tokenResourceId e = tokenResourceId q))"
proof -
  have A: "map_option tokenResourceId (map_of st (symbol q)) = Some (tokenResourceId q)"
    if "Query_token uc stn s = Some q" for s q
    using store_entity_initial_id [OF assms(1,3), of "toUpperCase uc s" q] that
    by (auto simp: Query_token_def)
  have B: "map_option tokenResourceId (map_of st (symbol q)) = Some (tokenResourceId q)"
    if q: "q \<in> set (Query_tokens stn)" for q
  proof -
    from q obtain k where k: "(k, q) \<in> set stn" by (auto simp: Query_tokens_def)
    have "store_identity st stn" using run_ticks_identity [OF assms(3)] by simp
    then have "distinct (map fst stn)"
      using assms(1) by (simp add: store_identity_def wf_store_def)
    then have "map_of stn k = Some q" using k by simp
    from store_entity_initial_id [OF assms(1,3) this] show ?thesis by auto
  qed
  have C: "map_option tokenResourceId (map_of st (symbol e)) = Some (tokenResourceId e)"
    if y: "y \<in> set (fst (consume sub evs ps1))" and e: "e \<in> set y" for y e
  proof -
    obtain ys ps2 where cs: "consume sub evs ps1 = (ys, ps2)" by (cases "consume sub evs ps1")
    from consume_after_subscribe [OF assms(4) cs] obtain c where
      c: "published evs = c @ pushQueue (ps2 ! baseIterator sub)"
        "ys = filter_map_stream (map (toUpperCase uc) S) c" by blast
    have "y \<in> set (filter_map_stream (map (toUpperCase uc) S) c)" using y cs c(2) by simp
    from filter_map_stream_member [OF this e] obtain b where b: "b \<in> set c" "e \<in> set b"
      by blast
    have "b \<in> set bs" using b(1) c(1) assms(5) by auto
    from batch_entity_initial_id [OF assms(1,2) this b(2)] show ?thesis by auto
  qed
  have D: "tokenResourceId e = tokenResourceId q"
    if "Query_token uc stn s = Some q" "y \<in> set (fst (consume sub evs ps1))" "e \<in> set y"
      "symbol e = symbol q" for s q y e
    using A [OF that(1)] C [OF that(2,3)] that(4) by auto
  show ?thesis using A B C D by blast
qed

text \<open>
  C2 at a concrete input: after the example tick, the query for eth and the batch the
  example subscription yields carry the identifiers of the initial store.
\<close>

theorem identifier_stable_witness:
  "wf_store tokens \<and>
   run_ticks ar_example [rand_example] tokens = Inr (example_store, [example_batch]) \<and>
   run_ticks ar_example (take 1 [rand_example]) tokens = Inr (example_store, [example_batch]) \<and>
   tokensUpdated_subscribe uc_example [''eth'', ''sol''] [] = (Inr example_sub, [\<lparr>pushQueue = [], pullQueue = 0, running = True\<rparr>]) \<and>
   set (published example_events) \<subseteq> set [example_batch] \<and>
   Query_token uc_example example_store ''eth'' = Some example_ETH \<and>
   fst (consume example_sub example_events [\<lparr>pushQueue = [], pullQueue = 0, running = True\<rparr>]) = [example_batch] \<and>
   map_option tokenResourceId (map_of tokens (symbol example_ETH)) = Some (tokenResourceId example_ETH) \<and>
   map_option tokenResourceId (map_of tokens (symbol example_SOL)) = Some (tokenResourceId example_SOL)"
proof -
  have h3: "run_ticks ar_example (take 1 [rand_example]) tokens = Inr (example_store, [example_batch])"
    by (simp add: tick_example)
  have h5: "set (published example_events) \<subseteq> set [example_batch]"
    by (simp add: example_events_def)
  have q: "Query_token uc_example example_store ''eth'' = Some example_ETH"
    by (simp add: Query_token_def toUpperCase_examples example_store_def)
  have c: "fst (consume example_sub example_events [\<lparr>pushQueue = [], pullQueue = 0, running = True\<rparr>]) = [example_batch]"
    by (simp add: example_events_def example_sub_def pubsub_publish_def tokensUpdated_next_def
        tokensUpdated_resume_def example_batch_def example_SOL_def example_ETH_def)
  note inst = identifier_stable [OF wf_store_tokens run_ticks_example h3 subscribe_example h5]
  have a: "map_option tokenResourceId (map_of tokens (symbol example_ETH)) = Some (tokenResourceId example_ETH)"
    using inst q by blast
  have "\<forall>e \<in> set example_batch.
      map_option tokenResourceId (map_of tokens (symbol e)) = Some (tokenResourceId e)"
    using inst c by simp
  then have b: "map_option tokenResourceId (map_of tokens (symbol example_SOL)) = Some (tokenResourceId example_SOL)"
    by (simp add: example_batch_def)
  show ?thesis
    using wf_store_tokens run_ticks_example h3 subscribe_example h5 q c a b by blast
qed

subsection \<open>C3: resolving one token\<close>

text \<open>
  C3 as stated does not hold: the \<open>token\<close> query does not resolve an id. The query
  for \<open>token:bitcoin:native\<close> returns null, while the query for BTC returns the entity.
\<close>

theorem resolve_by_id_counterexample:
  "Query_token uc_example tokens ''token:bitcoin:native'' = None \<and>
   Query_token uc_example tokens ''BTC'' = Some tokens_BTC"
  by code_simp

text \<open>
  C3, amended: the \<open>token\<close> query resolves an identifier by its case-normalized
  symbol only. The queries for btc and BTC both return the BTC entity, on every store they
  return the same result, and upper-casing the identifier never changes the result: this
  holds whenever upper-casing an identifier twice gives what upper-casing it once gives,
  and that is so for every ASCII identifier. All of this holds whatever the engine's
  conversion \<open>uc\<close> of strings outside ASCII is.
\<close>

theorem resolve_by_symbol:
  "Query_token uc tokens ''btc'' = Some tokens_BTC \<and>
   Query_token uc tokens ''BTC'' = Some tokens_BTC \<and>
   Query_token uc st ''btc'' = Query_token uc st ''BTC'' \<and>
   (toUpperCase uc (toUpperCase uc s) = toUpperCase uc s \<longrightarrow>
      Query_token uc st (toUpperCase uc s) = Query_token uc st s) \<and>
   (ascii s \<longrightarrow> Query_token uc st (toUpperCase uc s) = Query_token uc st s)"
proof -
  have "map_of tokens ''BTC'' = Some tokens_BTC" by (simp add: tokens_def)
  then show ?thesis by (simp add: Query_token_def toUpperCase_examples toUpperCase_idem_ascii)
qed

text \<open>
  The amended C3 at a concrete input: the identifier btc is ASCII, upper-casing it twice
  gives BTC as upper-casing it once does, and the queries for btc and for its upper-casing
  return the BTC entity.
\<close>

theorem resolve_by_symbol_witness:
  "ascii ''btc'' \<and>
   toUpperCase uc_example (toUpperCase uc_example ''btc'') = toUpperCase uc_example ''btc'' \<and>
   Query_token uc_example tokens (toUpperCase uc_example ''btc'') = Some tokens_BTC \<and>
   Query_token uc_example tokens ''btc'' = Some tokens_BTC"
proof -
  have a: "ascii ''btc''" by (rule ascii_examples)
  have i: "toUpperCase uc_example (toUpperCase uc_example ''btc'') = toUpperCase uc_example ''btc''"
    by (simp add: toUpperCase_examples)
  show ?thesis
    using resolve_by_symbol [of uc_example tokens "''btc''"] a i by simp
qed

subsection \<open>C4: subscribing never reports an error\<close>

text \<open>
  C4 as stated does not hold: subscribing with the empty list reports no
  \<open>InvalidSubscriptionRequest\<close>, and it attaches a raw feed to the topic.
\<close>

theorem subscribe_empty_counterexample:
  "fst (tokensUpdated_subscribe uc_example [] []) \<noteq> Inl InvalidSubscriptionRequest \<and>
   length (snd (tokensUpdated_subscribe uc_example [] [])) = 1"
  by (simp add: tokensUpdated_subscribe_eq)

text \<open>
  C4, amended: \<open>subscribe\<close> never reports an error. For every requested list, the
  empty one and the ones that match no entity included, it makes a new raw feed on the
  topic and returns a subscription that holds the upper-cased list and that feed.
\<close>

theorem subscribe_always_attaches:
  "\<exists>sub. tokensUpdated_subscribe uc S ps =
            (Inr sub, ps @ [\<lparr>pushQueue = [], pullQueue = 0, running = True\<rparr>]) \<and>
     upperSymbols sub = map (toUpperCase uc) S \<and> baseIterator sub = length ps"
  by (simp add: tokensUpdated_subscribe_eq)

subsection \<open>C5: a published batch has one or two entities with distinct identifiers\<close>

text \<open>
  C5: when the store is well formed and holds at least one entity, a tick returns, and the
  batch it publishes holds exactly one or two entities, with pairwise distinct identifiers.
  The store is well formed and has the same keys afterwards, so this holds for every tick the
  timer runs. It holds whatever the arithmetic of the engine is.
\<close>

theorem batch_nonempty_distinct:
  assumes "wf_store st" and "st \<noteq> []" and "shuffle_ok st r"
  shows "\<exists>st' b. simulatePriceUpdates_tick ar r st = Inr (st', b) \<and>
     (length b = 1 \<or> length b = 2) \<and> distinct (map tokenResourceId b) \<and>
     wf_store st' \<and> map fst st' = map fst st"
proof -
  from tick_total [OF assms(3)] obtain st' b where
    run: "simulatePriceUpdates_tick ar r st = Inr (st', b)" by blast
  have dk: "distinct (map fst st)" using assms(1) by (simp add: wf_store_def)
  let ?ks = "symbolsToUpdate r"
  from tick_chosen [OF dk assms(3) run] have len: "length b = length ?ks"
    and ch: "\<forall>j < length ?ks. \<exists>t. map_of st (?ks ! j) = Some t \<and>
        b ! j = update_token ar (fst (rnd_update r j)) (snd (rnd_update r j)) t \<and>
        map_of st' (?ks ! j) = Some (b ! j)" by simp_all
  have dks: "distinct ?ks" using dk assms(3) by (rule symbolsToUpdate_distinct)
  have "distinct (map tokenResourceId b)"
    unfolding distinct_conv_nth
  proof (intro allI impI)
    fix i j assume i: "i < length (map tokenResourceId b)"
      and j: "j < length (map tokenResourceId b)" and ij: "i \<noteq> j"
    from ch i len obtain ti where ti: "map_of st (?ks ! i) = Some ti"
      "b ! i = update_token ar (fst (rnd_update r i)) (snd (rnd_update r i)) ti" by auto
    from ch j len obtain tj where tj: "map_of st (?ks ! j) = Some tj"
      "b ! j = update_token ar (fst (rnd_update r j)) (snd (rnd_update r j)) tj" by auto
    have ne: "?ks ! i \<noteq> ?ks ! j"
      using dks i j ij len by (simp add: nth_eq_iff_index_eq)
    have "tokenResourceId ti \<noteq> tokenResourceId tj"
      using wf_store_id_inj [OF assms(1) ti(1) tj(1)] ne by blast
    moreover have "tokenResourceId (b ! i) = tokenResourceId ti" "tokenResourceId (b ! j) = tokenResourceId tj"
      using ti(2) tj(2) by (simp_all add: update_token_def Let_def)
    ultimately show "map tokenResourceId b ! i \<noteq> map tokenResourceId b ! j"
      using i j by simp
  qed
  moreover have "wf_store st'" using assms(1) run by (rule tick_wf_store)
  moreover have "map fst st' = map fst st"
    using tick_store_identity [OF run] by (simp add: store_identity_def)
  ultimately show ?thesis
    using run len symbolsToUpdate_length [OF assms(3,2)] by auto
qed

text \<open>
  C5 at a concrete input: the example tick on the initial store publishes the two
  entities SOL and ETH.
\<close>

theorem batch_nonempty_distinct_witness:
  "wf_store tokens \<and> tokens \<noteq> [] \<and> shuffle_ok tokens rand_example \<and>
   simulatePriceUpdates_tick ar_example rand_example tokens = Inr (example_store, example_batch) \<and>
   (length example_batch = 1 \<or> length example_batch = 2) \<and>
   distinct (map tokenResourceId example_batch) \<and>
   wf_store example_store \<and> map fst example_store = map fst tokens"
proof -
  from batch_nonempty_distinct [OF wf_store_tokens tokens_nonempty shuffle_ok_example]
  obtain st' b where r: "simulatePriceUpdates_tick ar_example rand_example tokens = Inr (st', b)"
    "length b = 1 \<or> length b = 2" "distinct (map tokenResourceId b)"
    "wf_store st'" "map fst st' = map fst tokens" by blast
  have "st' = example_store" "b = example_batch" using r(1) by (simp_all add: tick_example)
  then show ?thesis
    using r wf_store_tokens tokens_nonempty shuffle_ok_example by simp
qed

subsection \<open>C6: the yielded stream is an order-preserving selection of the raw stream\<close>

text \<open>
  C6: for a subscriber that subscribes and then observes any interleaving of publishes
  and calls of \<open>next()\<close>, a call that finds no matching batch waiting until a later
  publish brings one, the raw batches published so far split into the ones its calls have
  taken and the ones still in its feed, and the batches yielded so far are the non-empty
  restrictions of the taken ones, in publish order. Equivalently there is a strictly
  increasing list of positions in the publish sequence such that the yielded batches are
  the restrictions of the raw batches at these positions: each yielded batch comes from a
  raw batch of its own, in publish order. Moreover no raw batch is left in the feed while a
  call waits.
\<close>

theorem subscriber_stream_is_filter_map:
  assumes "tokensUpdated_subscribe uc S ps = (Inr sub, ps1)"
    and "consume sub evs ps1 = (ys, ps2)"
  shows "(\<exists>c. published evs = c @ pushQueue (ps2 ! baseIterator sub) \<and>
            ys = filter_map_stream (map (toUpperCase uc) S) c) \<and>
         (\<exists>is. sorted_wrt (<) is \<and> (\<forall>i \<in> set is. i < length (published evs)) \<and>
            ys = map (\<lambda>i. restrict_batch (map (toUpperCase uc) S) (published evs ! i)) is) \<and>
         (pullQueue (ps2 ! baseIterator sub) = 0 \<or> pushQueue (ps2 ! baseIterator sub) = [])"
proof -
  from consume_after_subscribe [OF assms] obtain c where
    c: "published evs = c @ pushQueue (ps2 ! baseIterator sub)"
      "ys = filter_map_stream (map (toUpperCase uc) S) c"
    and w: "pullQueue (ps2 ! baseIterator sub) = 0 \<or> pushQueue (ps2 ! baseIterator sub) = []"
    by blast
  from filter_map_stream_indices [of c "map (toUpperCase uc) S"] obtain "is" where
    i: "sorted_wrt (<) is" "\<forall>i \<in> set is. i < length c"
      "filter_map_stream (map (toUpperCase uc) S) c =
         map (\<lambda>i. restrict_batch (map (toUpperCase uc) S) (c ! i)) is"
    by blast
  have "\<forall>i \<in> set is. i < length (published evs)" using i(2) c(1) by auto
  moreover have "ys = map (\<lambda>i. restrict_batch (map (toUpperCase uc) S) (published evs ! i)) is"
    using c i(2,3) by (simp add: nth_append)
  ultimately show ?thesis using c i(1) w by blast
qed

text \<open>
  C6 at a concrete input: a subscription to eth and sol. The first call of \<open>next()\<close>
  finds the feed empty and waits. BTC is published: the call finds nothing for it and waits
  on. SOL and BTC are published, and the waiting call returns SOL. ETH is published, and the
  second call returns it. The yielded batches come from the second and the third raw batch.
\<close>

theorem subscriber_stream_is_filter_map_witness:
  "tokensUpdated_subscribe uc_example [''eth'', ''sol''] [] =
     (Inr example_sub, [\<lparr>pushQueue = [], pullQueue = 0, running = True\<rparr>]) \<and>
   consume example_sub example_publishes [\<lparr>pushQueue = [], pullQueue = 0, running = True\<rparr>]
     = ([[tokens_SOL], [tokens_ETH]], [\<lparr>pushQueue = [], pullQueue = 0, running = True\<rparr>]) \<and>
   published example_publishes = [[tokens_BTC], [tokens_SOL, tokens_BTC], [tokens_ETH]] \<and>
   [[tokens_SOL], [tokens_ETH]] =
     filter_map_stream (map (toUpperCase uc_example) [''eth'', ''sol''])
       [[tokens_BTC], [tokens_SOL, tokens_BTC], [tokens_ETH]] \<and>
   (\<exists>is. sorted_wrt (<) is \<and>
      (\<forall>i \<in> set is. i < length (published example_publishes)) \<and>
      [[tokens_SOL], [tokens_ETH]] =
        map (\<lambda>i. restrict_batch (map (toUpperCase uc_example) [''eth'', ''sol''])
          (published example_publishes ! i)) is)"
proof -
  have h1: "tokensUpdated_subscribe uc_example [''eth'', ''sol''] [] =
     (Inr example_sub, [\<lparr>pushQueue = [], pullQueue = 0, running = True\<rparr>])"
    by (rule subscribe_example)
  have h2: "consume example_sub example_publishes [\<lparr>pushQueue = [], pullQueue = 0, running = True\<rparr>]
     = ([[tokens_SOL], [tokens_ETH]], [\<lparr>pushQueue = [], pullQueue = 0, running = True\<rparr>])"
    by (simp add: example_publishes_def example_sub_def pubsub_publish_def tokensUpdated_next_def
        tokensUpdated_resume_def tokens_SOL_def tokens_BTC_def tokens_ETH_def)
  have p: "published example_publishes = [[tokens_BTC], [tokens_SOL, tokens_BTC], [tokens_ETH]]"
    by (simp add: example_publishes_def)
  note inst = subscriber_stream_is_filter_map [OF h1 h2]
  from inst [THEN conjunct1] obtain c where
    c: "published example_publishes =
          c @ pushQueue ([\<lparr>pushQueue = [], pullQueue = 0, running = True\<rparr>] ! baseIterator example_sub)"
       "[[tokens_SOL], [tokens_ETH]] = filter_map_stream (map (toUpperCase uc_example) [''eth'', ''sol'']) c"
    by (elim exE conjE)
  have "c = [[tokens_BTC], [tokens_SOL, tokens_BTC], [tokens_ETH]]"
    using c(1) p by (simp add: example_sub_def)
  then have fm: "[[tokens_SOL], [tokens_ETH]] =
     filter_map_stream (map (toUpperCase uc_example) [''eth'', ''sol''])
       [[tokens_BTC], [tokens_SOL, tokens_BTC], [tokens_ETH]]"
    using c(2) by (simp only:)
  show ?thesis
    by (intro conjI h1 h2 p fm inst [THEN conjunct2, THEN conjunct1])
qed

subsection \<open>C7: a tick changes prices only\<close>

text \<open>
  C7: a tick returns, the store has the same keys afterwards (no entity is added or
  removed), every entity keeps its identifier, symbol and name, and an entity that was not
  chosen is unchanged. This holds whatever the arithmetic of the engine is.
\<close>

theorem tick_frame:
  assumes "shuffle_ok st r"
  shows "\<exists>st' b. simulatePriceUpdates_tick ar r st = Inr (st', b) \<and>
     map fst st' = map fst st \<and>
     (\<forall>k t. map_of st k = Some t \<longrightarrow>
        (\<exists>t'. map_of st' k = Some t' \<and>
           tokenResourceId t' = tokenResourceId t \<and> symbol t' = symbol t \<and> name t' = name t \<and>
           (k \<notin> set (symbolsToUpdate r) \<longrightarrow> t' = t)))"
proof -
  from tick_total [OF assms] obtain st' b where
    run: "simulatePriceUpdates_tick ar r st = Inr (st', b)" by blast
  have fe: "forEach_update ar (rnd_update r) 0 (symbolsToUpdate r) st [] = Inr (st', b)"
    using run by (simp add: simulatePriceUpdates_tick_def)
  have "\<exists>t'. map_of st' k = Some t' \<and>
           tokenResourceId t' = tokenResourceId t \<and> symbol t' = symbol t \<and> name t' = name t \<and>
           (k \<notin> set (symbolsToUpdate r) \<longrightarrow> t' = t)" if kt: "map_of st k = Some t" for k t
  proof -
    from forEach_update_identity [OF fe kt] obtain t' where
      t': "map_of st' k = Some t'" "same_identity t t'" by blast
    have "k \<notin> set (symbolsToUpdate r) \<longrightarrow> t' = t"
      using forEach_update_frame [OF fe, of k] kt t'(1) by auto
    then show ?thesis using t' by (auto simp: same_identity_def)
  qed
  then show ?thesis using run forEach_update_keys [OF fe] by blast
qed

text \<open>
  C7 at a concrete input: the example tick on the initial store.
\<close>

theorem tick_frame_witness:
  "shuffle_ok tokens rand_example \<and>
   (\<exists>st' b. simulatePriceUpdates_tick ar_example rand_example tokens = Inr (st', b) \<and>
     map fst st' = map fst tokens \<and>
     (\<forall>k t. map_of tokens k = Some t \<longrightarrow>
        (\<exists>t'. map_of st' k = Some t' \<and>
           tokenResourceId t' = tokenResourceId t \<and> symbol t' = symbol t \<and> name t' = name t \<and>
           (k \<notin> set (symbolsToUpdate rand_example) \<longrightarrow> t' = t))))"
  using tick_frame [OF shuffle_ok_example] shuffle_ok_example
  by blast

subsection \<open>C8: a batch holds the entities as the store has them after the tick\<close>

text \<open>
  C8: every entity in the batch a tick publishes is a whole token record, equal to a
  record of the store as it is at the end of the tick, and it is the only record of that
  store with its identifier. The store is well formed afterwards. This holds whatever the
  arithmetic of the engine is.
\<close>

theorem batch_is_post_mutation_snapshot:
  assumes "wf_store st" and "shuffle_ok st r"
  shows "\<exists>st' b. simulatePriceUpdates_tick ar r st = Inr (st', b) \<and>
     (\<forall>e \<in> set b. (\<exists>k. map_of st' k = Some e) \<and>
        (\<forall>k u. map_of st' k = Some u \<and> tokenResourceId u = tokenResourceId e \<longrightarrow> u = e)) \<and>
     wf_store st'"
proof -
  from tick_total [OF assms(2)] obtain st' b where
    run: "simulatePriceUpdates_tick ar r st = Inr (st', b)" by blast
  have dk: "distinct (map fst st)" using assms(1) by (simp add: wf_store_def)
  have si: "store_identity st st'" using run by (rule tick_store_identity)
  let ?ks = "symbolsToUpdate r"
  from tick_chosen [OF dk assms(2) run] have len: "length b = length ?ks"
    and ch: "\<forall>j < length ?ks. \<exists>t. map_of st (?ks ! j) = Some t \<and>
        b ! j = update_token ar (fst (rnd_update r j)) (snd (rnd_update r j)) t \<and>
        map_of st' (?ks ! j) = Some (b ! j)" by simp_all
  have "(\<exists>k. map_of st' k = Some e) \<and>
        (\<forall>k u. map_of st' k = Some u \<and> tokenResourceId u = tokenResourceId e \<longrightarrow> u = e)"
    if e: "e \<in> set b" for e
  proof -
    from e obtain j where j: "j < length b" "b ! j = e" by (auto simp: in_set_conv_nth)
    then have in_store: "map_of st' (?ks ! j) = Some e" using ch len by auto
    have "u = e" if u: "map_of st' k = Some u" "tokenResourceId u = tokenResourceId e" for k u
    proof -
      from store_identity_back [OF si u(1)] obtain t1 where
        t1: "map_of st k = Some t1" "same_identity t1 u" by blast
      from store_identity_back [OF si in_store] obtain t2 where
        t2: "map_of st (?ks ! j) = Some t2" "same_identity t2 e" by blast
      have "tokenResourceId t1 = tokenResourceId t2"
        using t1(2) t2(2) u(2) by (simp add: same_identity_def)
      then have "k = ?ks ! j" using wf_store_id_inj [OF assms(1) t1(1) t2(1)] by simp
      then show ?thesis using u(1) in_store by simp
    qed
    then show ?thesis using in_store by blast
  qed
  moreover have "wf_store st'" using assms(1) run by (rule tick_wf_store)
  ultimately show ?thesis using run by blast
qed

text \<open>
  C8 at a concrete input: the example tick on the initial store.
\<close>

theorem batch_is_post_mutation_snapshot_witness:
  "wf_store tokens \<and> shuffle_ok tokens rand_example \<and>
   (\<exists>st' b. simulatePriceUpdates_tick ar_example rand_example tokens = Inr (st', b) \<and>
     (\<forall>e \<in> set b. (\<exists>k. map_of st' k = Some e) \<and>
        (\<forall>k u. map_of st' k = Some u \<and> tokenResourceId u = tokenResourceId e \<longrightarrow> u = e)) \<and>
     wf_store st')"
  using batch_is_post_mutation_snapshot [OF wf_store_tokens shuffle_ok_example]
    wf_store_tokens shuffle_ok_example
  by blast

subsection \<open>C10: a subscription that matches no entity never yields\<close>

text \<open>
  C10: subscribing with a list none of whose members is, upper-cased by the engine, the
  symbol of an entity of the store (the empty list included) returns a subscription, and
  whatever batches the ticks publish and whenever the consumer calls \<open>next()\<close>, no call
  yields a batch: every call waits. The upper-casing is the engine's, its conversion \<open>uc\<close>
  of strings outside ASCII included: a member outside ASCII that the engine upper-cases to
  the symbol of an entity is not such a member.
\<close>

theorem unmatched_subscription_never_yields:
  assumes "wf_store st" and "run_ticks ar rs st = Inr (st', bs)"
    and "\<forall>s \<in> set S. toUpperCase uc s \<notin> fst ` set st"
    and "set (published evs) \<subseteq> set bs"
  shows "\<exists>sub ps1. tokensUpdated_subscribe uc S ps = (Inr sub, ps1) \<and>
     fst (consume sub evs ps1) = []"
proof -
  obtain sub ps1 where s: "tokensUpdated_subscribe uc S ps = (Inr sub, ps1)"
    using tokensUpdated_subscribe_eq by blast
  obtain ys ps2 where cs: "consume sub evs ps1 = (ys, ps2)" by (cases "consume sub evs ps1")
  from consume_after_subscribe [OF s cs] obtain c where
    c: "published evs = c @ pushQueue (ps2 ! baseIterator sub)"
      "ys = filter_map_stream (map (toUpperCase uc) S) c" by blast
  have "ys = []"
  proof (rule ccontr)
    assume "ys \<noteq> []"
    then obtain y where y: "y \<in> set ys" by (cases ys) auto
    then have "y \<noteq> []" using c(2) filter_map_stream_nonempty by blast
    then obtain e where e: "e \<in> set y" by (cases y) auto
    from filter_map_stream_member [OF y [unfolded c(2)] e] obtain b where
      b: "b \<in> set c" "e \<in> set b" "symbol e \<in> set (map (toUpperCase uc) S)" by blast
    have "b \<in> set bs" using b(1) c(1) assms(4) by auto
    from batch_entity_initial_id [OF assms(1,2) this b(2)] have "symbol e \<in> fst ` set st"
      by (auto dest: map_of_Some_key)
    moreover obtain x where "x \<in> set S" "symbol e = toUpperCase uc x" using b(3) by auto
    ultimately show False using assms(3) by metis
  qed
  then show ?thesis using s cs by simp
qed

text \<open>
  C10 at a concrete input: a subscription to doge and to the id of BTC, and the batch
  of the example tick.
\<close>

theorem unmatched_subscription_never_yields_witness:
  "wf_store tokens \<and>
   run_ticks ar_example [rand_example] tokens = Inr (example_store, [example_batch]) \<and>
   toUpperCase uc_example ''doge'' \<notin> fst ` set tokens \<and>
   toUpperCase uc_example ''token:bitcoin:native'' \<notin> fst ` set tokens \<and>
   set (published example_events) \<subseteq> set [example_batch] \<and>
   (\<exists>sub ps1. tokensUpdated_subscribe uc_example [''doge'', ''token:bitcoin:native''] [] = (Inr sub, ps1) \<and>
      fst (consume sub example_events ps1) = [])"
proof -
  have h3a: "toUpperCase uc_example ''doge'' \<notin> fst ` set tokens"
    by (simp add: toUpperCase_examples tokens_def)
  have h3b: "toUpperCase uc_example ''token:bitcoin:native'' \<notin> fst ` set tokens"
    by (simp add: toUpperCase_examples tokens_def)
  have h3: "\<forall>s \<in> set [''doge'', ''token:bitcoin:native'']. toUpperCase uc_example s \<notin> fst ` set tokens"
    using h3a h3b by simp
  have h4: "set (published example_events) \<subseteq> set [example_batch]"
    by (simp add: example_events_def)
  show ?thesis
    using unmatched_subscription_never_yields [OF wf_store_tokens run_ticks_example h3 h4, of "[]"]
      wf_store_tokens run_ticks_example h3a h3b h4
    by blast
qed

end
